theory Spec2Isabelle
  imports Complex_Main
begin

section \<open>JavaScript values\<close>

text \<open>
  The tab manager stores, per tab id, a plain object holding \<open>url\<close>, \<open>styleIds\<close> and
  arbitrary nested metadata. The values of a record are modelled as trees: an object is a
  map from property keys (strings) to values, and a nested mutation rebuilds the path to
  the root; a value stored in a record is not shared with another record or with the
  caller. Numbers are the integers; arrays and other exotic objects are not modelled.
  The source file is an ES module and therefore strict-mode code: writing a property of
  a primitive value, or deleting a non-configurable one, raises a \<open>TypeError\<close>.
\<close>

datatype jsval =
    Undefined
  | Null
  | Bool bool
  | Num int
  | Str string
  | Obj "string \<Rightarrow> jsval option"

type_synonym jsobj = "string \<Rightarrow> jsval option"

datatype error = TypeError

text \<open>Keys of the cache and of the persistent store: numbers or strings.\<close>

datatype key = KNum int | KStr string

fun truthy :: "jsval \<Rightarrow> bool" where
  "truthy Undefined = False"
| "truthy Null = False"
| "truthy (Bool b) = b"
| "truthy (Num n) = (n \<noteq> 0)"
| "truthy (Str s) = (s \<noteq> [])"
| "truthy (Obj m) = True"

definition is_digit :: "char \<Rightarrow> bool" where
  "is_digit c = (48 \<le> (of_char c :: nat) \<and> (of_char c :: nat) \<le> 57)"

definition digit_val :: "char \<Rightarrow> nat" where
  "digit_val c = of_char c - 48"

definition nat_of_digits :: "string \<Rightarrow> nat" where
  "nat_of_digits ds = foldl (\<lambda>a c. 10 * a + digit_val c) 0 ds"

text \<open>A canonical array index: decimal digits without a leading zero.\<close>

definition array_index :: "string \<Rightarrow> nat option" where
  "array_index k =
     (if k \<noteq> [] \<and> list_all is_digit k \<and> (hd k \<noteq> CHR ''0'' \<or> k = ''0'')
      then Some (nat_of_digits k) else None)"

text \<open>The own properties of a string value: \<open>length\<close> and its characters.\<close>

definition str_own :: "string \<Rightarrow> string \<Rightarrow> jsval option" where
  "str_own s k =
     (if k = ''length'' then Some (Num (int (length s)))
      else case array_index k of
             None \<Rightarrow> None
           | Some i \<Rightarrow> if i < length s then Some (Str [s ! i]) else None)"

text \<open>
  The read of a key that no built-in prototype defines (\<open>url\<close>, \<open>styleIds\<close>) on a record:
  the own property, or \<open>undefined\<close>.
\<close>

definition own_prop :: "jsobj \<Rightarrow> string \<Rightarrow> jsval" where
  "own_prop m k = (case m k of None \<Rightarrow> Undefined | Some v \<Rightarrow> v)"

section \<open>Property access\<close>

text \<open>
  A property read \<open>obj[k]\<close> looks for an own property first and then follows the
  prototype chain: a plain object inherits from \<open>Object.prototype\<close>, a number, a boolean
  and a string from the prototype of their wrapper. The built-in realm is taken as it is
  when the module is loaded. Of the inherited members the model follows \<open>constructor\<close>,
  which leads to the built-in constructor function of that name; a walk that reaches any
  other inherited member, or goes on inside a built-in function beyond its \<open>name\<close> and
  its throwing \<open>caller\<close> accessor, has left the model, which is the outcome \<open>Beyond\<close>:
  nothing is said about such a run. The lists name the string-keyed members of the
  prototypes, including the legacy ones of older engines.
\<close>

datatype stop = Raise error | Beyond

datatype place = Data jsval | Builtin string

fun truthy_place :: "place \<Rightarrow> bool" where
  "truthy_place (Data v) = truthy v"
| "truthy_place (Builtin n) = True"

definition object_proto_names :: "string list" where
  "object_proto_names =
     [''constructor'', ''__proto__'', ''hasOwnProperty'', ''isPrototypeOf'',
      ''propertyIsEnumerable'', ''toLocaleString'', ''toString'', ''valueOf'',
      ''__defineGetter__'', ''__defineSetter__'', ''__lookupGetter__'', ''__lookupSetter__'',
      ''toSource'', ''watch'', ''unwatch'', ''__noSuchMethod__'']"

definition number_proto_names :: "string list" where
  "number_proto_names = [''toExponential'', ''toFixed'', ''toPrecision'']"

definition string_proto_names :: "string list" where
  "string_proto_names =
     [''anchor'', ''at'', ''big'', ''blink'', ''bold'', ''charAt'', ''charCodeAt'',
      ''codePointAt'', ''concat'', ''contains'', ''endsWith'', ''fixed'', ''fontcolor'',
      ''fontsize'', ''includes'', ''indexOf'', ''isWellFormed'', ''italics'',
      ''lastIndexOf'', ''link'', ''localeCompare'', ''match'', ''matchAll'', ''normalize'',
      ''padEnd'', ''padStart'', ''quote'', ''repeat'', ''replace'', ''replaceAll'',
      ''search'', ''slice'', ''small'', ''split'', ''startsWith'', ''strike'', ''sub'',
      ''substr'', ''substring'', ''sup'', ''toLocaleLowerCase'', ''toLocaleUpperCase'',
      ''toLowerCase'', ''toUpperCase'', ''toWellFormed'', ''trim'', ''trimEnd'',
      ''trimLeft'', ''trimRight'', ''trimStart'']"

definition proto_names :: "string \<Rightarrow> string list" where
  "proto_names ctor =
     (if ctor = ''String'' then string_proto_names
      else if ctor = ''Number'' then number_proto_names
      else []) @ object_proto_names"


text \<open>
  Reading \<open>k\<close> on a value without such an own property, whose prototype chain starts at
  the prototype of the constructor \<open>ctor\<close>.
\<close>

definition inherited :: "string \<Rightarrow> string \<Rightarrow> stop + place" where
  "inherited ctor k =
     (if k = ''constructor'' then Inr (Builtin ctor)
      else if k \<in> set (proto_names ctor) then Inl Beyond
      else Inr (Data Undefined))"

text \<open>\<open>obj[k]\<close>: reading a property of \<open>undefined\<close> or \<open>null\<close> throws.\<close>

fun get_prop :: "place \<Rightarrow> string \<Rightarrow> stop + place" where
  "get_prop (Data Undefined) k = Inl (Raise TypeError)"
| "get_prop (Data Null) k = Inl (Raise TypeError)"
| "get_prop (Data (Bool b)) k = inherited ''Boolean'' k"
| "get_prop (Data (Num n)) k = inherited ''Number'' k"
| "get_prop (Data (Str s)) k =
     (case str_own s k of None \<Rightarrow> inherited ''String'' k | Some v \<Rightarrow> Inr (Data v))"
| "get_prop (Data (Obj m)) k =
     (case m k of None \<Rightarrow> inherited ''Object'' k | Some v \<Rightarrow> Inr (Data v))"
| "get_prop (Builtin n) k =
     (if k = ''name'' then Inr (Data (Str n))
      else if k = ''caller'' then Inl (Raise TypeError)
      else Inl Beyond)"

text \<open>
  \<open>obj[k] = v\<close> in strict mode. An object takes the property as its own, except that
  \<open>__proto__\<close>, unless it is an own property already, goes to the inherited setter. A
  primitive value cannot take a property.
\<close>

fun put_prop :: "place \<Rightarrow> string \<Rightarrow> jsval \<Rightarrow> stop + place" where
  "put_prop (Data (Obj m)) k v =
     (if k = ''__proto__'' \<and> m k = None then Inl Beyond else Inr (Data (Obj (m(k \<mapsto> v)))))"
| "put_prop (Data Undefined) k v = Inl (Raise TypeError)"
| "put_prop (Data Null) k v = Inl (Raise TypeError)"
| "put_prop (Data prim) k v = (if k = ''__proto__'' then Inl Beyond else Inl (Raise TypeError))"
| "put_prop (Builtin n) k v = Inl Beyond"

text \<open>
  \<open>delete obj[k]\<close> in strict mode removes an own property; the characters and the length
  of a string and the \<open>prototype\<close> of a built-in constructor cannot be deleted.
\<close>

fun delete_prop :: "place \<Rightarrow> string \<Rightarrow> stop + place" where
  "delete_prop (Data Undefined) k = Inl (Raise TypeError)"
| "delete_prop (Data Null) k = Inl (Raise TypeError)"
| "delete_prop (Data (Bool b)) k = Inr (Data (Bool b))"
| "delete_prop (Data (Num n)) k = Inr (Data (Num n))"
| "delete_prop (Data (Str s)) k =
     (if str_own s k = None then Inr (Data (Str s)) else Inl (Raise TypeError))"
| "delete_prop (Data (Obj m)) k = Inr (Data (Obj (m(k := None))))"
| "delete_prop (Builtin n) k = (if k = ''prototype'' then Inl (Raise TypeError) else Inl Beyond)"

section \<open>Module state\<close>

text \<open>
  The module owns the \<open>cache\<close> map and the \<open>listeners\<close> set (a \<open>Set\<close> iterates in
  insertion order, so it is a duplicate-free list of listener identities). Calls made to
  the persistent store are fire-and-forget; they are recorded in issue order in
  \<open>store_log\<close>, each with the record as it is at the time of the call. \<open>console\<close>
  collects what is passed to \<open>console.error\<close> and \<open>calls\<close> the listener invocations.
\<close>

datatype store_op = StoreSet key jsobj | StoreRemove key

record url_change =
  tabId :: key
  url :: string
  oldUrl :: jsval

datatype outcome = Returns | Throws jsval

type_synonym listener = nat

record tab_manager =
  cache :: "key \<Rightarrow> jsobj option"
  listeners :: "listener list"
  store_log :: "store_op list"
  console :: "jsval list"
  calls :: "(listener \<times> url_change) list"

definition init :: tab_manager where
  "init = \<lparr>cache = Map.empty, listeners = [], store_log = [], console = [], calls = []\<rparr>"

text \<open>\<open>onOff(fn, state)\<close>: \<open>Set.add\<close> keeps an element already present in place.\<close>

definition onOff :: "listener \<Rightarrow> bool \<Rightarrow> tab_manager \<Rightarrow> tab_manager" where
  "onOff fn state s =
     (if state
      then (if fn \<in> set (listeners s) then s else s\<lparr>listeners := listeners s @ [fn]\<rparr>)
      else s\<lparr>listeners := removeAll fn (listeners s)\<rparr>)"

section \<open>Reading the cache\<close>

text \<open>
  The loop of \<open>get\<close>: it stops at the first falsy value and returns it. A result that is
  a built-in function is not a value of the model.
\<close>

fun walk :: "place \<Rightarrow> string list \<Rightarrow> stop + place" where
  "walk res [] = Inr res"
| "walk res (k # keyPath) =
     (if truthy_place res
      then (case get_prop res k of Inl e \<Rightarrow> Inl e | Inr v \<Rightarrow> walk v keyPath)
      else Inr res)"

definition cache_get :: "(key \<Rightarrow> jsobj option) \<Rightarrow> key \<Rightarrow> jsval" where
  "cache_get c t = (case c t of None \<Rightarrow> Undefined | Some r \<Rightarrow> Obj r)"

definition get :: "tab_manager \<Rightarrow> key \<Rightarrow> string list \<Rightarrow> stop + jsval" where
  "get s t keyPath =
     (case walk (Data (cache_get (cache s) t)) keyPath of
        Inl e \<Rightarrow> Inl e
      | Inr (Data v) \<Rightarrow> Inr v
      | Inr (Builtin n) \<Rightarrow> Inl Beyond)"


section \<open>Writing the cache\<close>

text \<open>
  The traversal of \<open>set\<close> from \<open>obj\<close> down the keys \<open>args\<close>, followed by the assignment or
  deletion of \<open>lastKey\<close>. The result is \<open>obj\<close> after the in-place mutation; when the run
  stops, \<open>Inl\<close> carries the reason and \<open>obj\<close> as mutated up to then. In the delete case a
  missing or falsy child makes \<open>obj\<close> become \<open>false\<close>, which ends the loop and skips the
  deletion.
\<close>

fun store_back :: "place \<Rightarrow> string \<Rightarrow> place \<Rightarrow> place" where
  "store_back (Data (Obj m)) k (Data child) = Data (Obj (m(k \<mapsto> child)))"
| "store_back obj k child = obj"

fun set_at :: "bool \<Rightarrow> place \<Rightarrow> string list \<Rightarrow> string \<Rightarrow> jsval \<Rightarrow> stop \<times> place + place" where
  "set_at del obj [] lastKey v =
     (if \<not> del then
        (case put_prop obj lastKey v of Inl e \<Rightarrow> Inl (e, obj) | Inr obj' \<Rightarrow> Inr obj')
      else if truthy_place obj then
        (case delete_prop obj lastKey of Inl e \<Rightarrow> Inl (e, obj) | Inr obj' \<Rightarrow> Inr obj')
      else Inr obj)"
| "set_at del obj (k # args) lastKey v =
     (if truthy_place obj then
        (case get_prop obj k of
           Inl e \<Rightarrow> Inl (e, obj)
         | Inr child \<Rightarrow>
             if truthy_place child then
               (case set_at del child args lastKey v of
                  Inl (e, child') \<Rightarrow> Inl (e, store_back obj k child')
                | Inr child' \<Rightarrow> Inr (store_back obj k child'))
             else if del then Inr obj
             else
               (case put_prop obj k (Obj Map.empty) of
                  Inl e \<Rightarrow> Inl (e, obj)
                | Inr obj' \<Rightarrow>
                    (case set_at del (Data (Obj Map.empty)) args lastKey v of
                       Inl (e, child') \<Rightarrow> Inl (e, store_back obj' k child')
                     | Inr child' \<Rightarrow> Inr (store_back obj' k child'))))
      else set_at del obj [] lastKey v)"

text \<open>
  \<open>set(tabId, ...path, value)\<close>: the value and the last key are popped off the
  arguments (popping an empty array gives \<open>undefined\<close>, the property key \<open>"undefined"\<close>).
  The record of an untracked tab is put in the cache before the traversal, so a run that
  stops leaves it there, and no write is issued. The traversal starts from an object and
  returns one, which \<open>the_obj\<close> unwraps.
\<close>

definition the_obj :: "place \<Rightarrow> jsobj" where
  "the_obj p = (case p of Data (Obj m) \<Rightarrow> m | _ \<Rightarrow> Map.empty)"

definition set_tab ::
  "key \<Rightarrow> string list \<Rightarrow> jsval \<Rightarrow> tab_manager \<Rightarrow> stop \<times> tab_manager + tab_manager"
where
  "set_tab t path v s =
     (let lastKey = (if path = [] then ''undefined'' else last path);
          args = butlast path;
          del = (v = Undefined)
      in if cache s t = None \<and> del then Inr s
         else
           (case set_at del (Data (Obj (case cache s t of None \<Rightarrow> Map.empty | Some r \<Rightarrow> r)))
                   args lastKey v of
              Inl (e, obj0) \<Rightarrow> Inl (e, s\<lparr>cache := (cache s)(t \<mapsto> the_obj obj0)\<rparr>)
            | Inr obj0 \<Rightarrow>
                Inr (s\<lparr>cache := (cache s)(t \<mapsto> the_obj obj0),
                       store_log := store_log s @ [StoreSet t (the_obj obj0)]\<rparr>)))"

definition remove :: "key \<Rightarrow> tab_manager \<Rightarrow> tab_manager" where
  "remove t s =
     s\<lparr>cache := (cache s)(t := None), store_log := store_log s @ [StoreRemove t]\<rparr>"

section \<open>Navigation reactor\<close>

text \<open>
  A listener is code outside this module. It is represented by its identity in the
  registration set, and \<open>run fn ev\<close> tells whether the call \<open>fn(ev)\<close> returns or throws
  (and what). The loop calls each listener inside its own \<open>try\<close>; a thrown value goes to
  \<open>console.error\<close>. Listeners that call back into this module while being notified are
  not covered.
\<close>

fun notify ::
  "(listener \<Rightarrow> url_change \<Rightarrow> outcome) \<Rightarrow> url_change \<Rightarrow> listener list \<Rightarrow> tab_manager \<Rightarrow> tab_manager"
where
  "notify run ev [] s = s"
| "notify run ev (fn # fns) s =
     notify run ev fns
       (case run fn ev of
          Returns \<Rightarrow> s\<lparr>calls := calls s @ [(fn, ev)]\<rparr>
        | Throws err \<Rightarrow> s\<lparr>calls := calls s @ [(fn, ev)], console := console s @ [err]\<rparr>)"

text \<open>
  The callback given to \<open>onUrlChange\<close>, applied to \<open>{tabId, frameId, url}\<close>. The
  predicate \<open>supported\<close> is imported from another module and is a parameter here.
\<close>

definition onUrlChange ::
  "(string \<Rightarrow> bool) \<Rightarrow> (listener \<Rightarrow> url_change \<Rightarrow> outcome) \<Rightarrow>
     key \<Rightarrow> int \<Rightarrow> string \<Rightarrow> tab_manager \<Rightarrow> tab_manager"
where
  "onUrlChange supported run tid frameId u s =
     (if frameId \<noteq> 0 then s
      else
        let old = (case cache s tid of None \<Rightarrow> Undefined | Some r \<Rightarrow> own_prop r ''url'');
            obj = (case cache s tid of None \<Rightarrow> Map.empty | Some r \<Rightarrow> r)(''url'' \<mapsto> Str u);
            s1 = s\<lparr>cache := (cache s)(tid \<mapsto> obj),
                   store_log := store_log s @ [StoreSet tid obj]\<rparr>
        in if \<not> supported u then s1
           else notify run \<lparr>tabId = tid, url = u, oldUrl = old\<rparr> (listeners s1) s1)"

section \<open>Numeric coercion of keys\<close>

text \<open>
  The garbage-collection pass tests \<open>+key >= 0\<close>. Unary plus leaves a number as it is
  and converts a string by the grammar of string numeric literals: surrounding white
  space is dropped, the empty string is \<open>0\<close>, binary, octal and hexadecimal literals carry
  no sign, a decimal literal may have a sign, a fraction and an exponent, and everything
  else is \<open>NaN\<close>. Finite values are kept exact, except that a magnitude too small for a
  double becomes zero and one too large becomes infinite; this is all the comparison
  with zero can observe. Characters are 8-bit, so the white space is that of Latin-1.
\<close>

datatype jsnum = NaN | Finite rat | PosInf | NegInf

fun ge0 :: "jsnum \<Rightarrow> bool" where
  "ge0 NaN = False"
| "ge0 (Finite q) = (0 \<le> q)"
| "ge0 PosInf = True"
| "ge0 NegInf = False"

definition is_space :: "char \<Rightarrow> bool" where
  "is_space c = ((of_char c :: nat) \<in> {9, 10, 11, 12, 13, 32, 160})"

definition trim :: "string \<Rightarrow> string" where
  "trim s = rev (dropWhile is_space (rev (dropWhile is_space s)))"

definition radix_digit :: "nat \<Rightarrow> char \<Rightarrow> nat option" where
  "radix_digit radix c =
     (let n = (of_char c :: nat);
          d = (if 48 \<le> n \<and> n \<le> 57 then Some (n - 48)
               else if 97 \<le> n \<and> n \<le> 102 then Some (n - 87)
               else if 65 \<le> n \<and> n \<le> 70 then Some (n - 55)
               else None)
      in case d of None \<Rightarrow> None | Some v \<Rightarrow> if v < radix then Some v else None)"

definition to_rounded :: "rat \<Rightarrow> jsnum" where
  "to_rounded q =
     (if \<bar>q\<bar> \<le> 1 / 2 ^ 1075 then Finite 0
      else if 2 ^ 1024 - 2 ^ 970 \<le> \<bar>q\<bar> then (if q < 0 then NegInf else PosInf)
      else Finite q)"

definition radix_literal :: "nat \<Rightarrow> string \<Rightarrow> jsnum" where
  "radix_literal radix ds =
     (if ds \<noteq> [] \<and> list_all (\<lambda>c. radix_digit radix c \<noteq> None) ds
      then to_rounded (of_nat (foldl (\<lambda>a c. radix * a + the (radix_digit radix c)) 0 ds))
      else NaN)"

definition digits_opt :: "string \<Rightarrow> nat option" where
  "digits_opt ds = (if ds \<noteq> [] \<and> list_all is_digit ds then Some (nat_of_digits ds) else None)"

definition exponent_part :: "string \<Rightarrow> int option" where
  "exponent_part r =
     (if r = [] then Some 0
      else if hd r = CHR ''e'' \<or> hd r = CHR ''E'' then
        (if tl r \<noteq> [] \<and> hd (tl r) = CHR ''+'' then map_option int (digits_opt (tl (tl r)))
         else if tl r \<noteq> [] \<and> hd (tl r) = CHR ''-''
           then map_option (\<lambda>n. - int n) (digits_opt (tl (tl r)))
         else map_option int (digits_opt (tl r)))
      else None)"

definition scale10 :: "nat \<Rightarrow> int \<Rightarrow> rat" where
  "scale10 m e = (if 0 \<le> e then of_nat m * 10 ^ nat e else of_nat m / 10 ^ nat (- e))"

definition unsigned_decimal :: "string \<Rightarrow> rat option" where
  "unsigned_decimal t =
     (let ip = takeWhile is_digit t;
          r1 = dropWhile is_digit t;
          dot = (r1 \<noteq> [] \<and> hd r1 = CHR ''.'');
          fp = (if dot then takeWhile is_digit (tl r1) else []);
          r2 = (if dot then dropWhile is_digit (tl r1) else r1)
      in if ip = [] \<and> fp = [] then None
         else map_option (\<lambda>e. scale10 (nat_of_digits (ip @ fp)) (e - int (length fp)))
                (exponent_part r2))"

definition string_to_number :: "string \<Rightarrow> jsnum" where
  "string_to_number s =
     (let t = trim s in
      if t = [] then Finite 0
      else if take 2 t = ''0x'' \<or> take 2 t = ''0X'' then radix_literal 16 (drop 2 t)
      else if take 2 t = ''0o'' \<or> take 2 t = ''0O'' then radix_literal 8 (drop 2 t)
      else if take 2 t = ''0b'' \<or> take 2 t = ''0B'' then radix_literal 2 (drop 2 t)
      else
        let neg = (hd t = CHR ''-'');
            u = (if hd t = CHR ''+'' \<or> hd t = CHR ''-'' then tl t else t)
        in if u = ''Infinity'' then (if neg then NegInf else PosInf)
           else (case unsigned_decimal u of
                   None \<Rightarrow> NaN
                 | Some q \<Rightarrow> to_rounded (if neg then - q else q)))"

fun to_number :: "key \<Rightarrow> jsnum" where
  "to_number (KNum n) = Finite (of_int n)"
| "to_number (KStr s) = string_to_number s"

section \<open>Startup reconciler\<close>

text \<open>
  The handler of \<open>stateDb.ready\<close>, applied to \<open>[dbData, tabs]\<close>. \<open>dbData\<close> is a \<open>Map\<close>,
  given as the list of its entries in iteration order; its values under tab ids are
  records (objects). The first loop mutates the record it finds in \<open>dbData\<close> in place, so
  the lookup table is threaded through the loop along with the module state.
\<close>

fun live_pass ::
  "(string \<Rightarrow> bool) \<Rightarrow> (key \<times> string) list \<Rightarrow> (key \<Rightarrow> jsobj option) \<Rightarrow> tab_manager \<Rightarrow>
     (key \<Rightarrow> jsobj option) \<times> tab_manager"
where
  "live_pass supported [] db s = (db, s)"
| "live_pass supported ((tid, u) # tabs) db s =
     (if supported u then
        (case db tid of
           None \<Rightarrow>
             (let data = [''url'' \<mapsto> Str u]
              in live_pass supported tabs db
                   (s\<lparr>cache := (cache s)(tid \<mapsto> data),
                      store_log := store_log s @ [StoreSet tid data]\<rparr>))
         | Some data0 \<Rightarrow>
             if own_prop data0 ''url'' \<noteq> Str u then
               (let data = data0(''url'' \<mapsto> Str u)
                in live_pass supported tabs (db(tid \<mapsto> data))
                     (s\<lparr>cache := (cache s)(tid \<mapsto> data),
                        store_log := store_log s @ [StoreSet tid data]\<rparr>))
             else live_pass supported tabs db (s\<lparr>cache := (cache s)(tid \<mapsto> data0)\<rparr>))
      else live_pass supported tabs db s)"

fun gc_pass :: "key list \<Rightarrow> tab_manager \<Rightarrow> tab_manager" where
  "gc_pass [] s = s"
| "gc_pass (k # ks) s =
     gc_pass ks
       (if ge0 (to_number k) \<and> cache s k = None
        then s\<lparr>store_log := store_log s @ [StoreRemove k]\<rparr>
        else s)"

definition reconcile ::
  "(string \<Rightarrow> bool) \<Rightarrow> (key \<times> jsobj) list \<Rightarrow> (key \<times> string) list \<Rightarrow> tab_manager \<Rightarrow> tab_manager"
where
  "reconcile supported dbData tabs s =
     gc_pass (map fst dbData) (snd (live_pass supported tabs (map_of dbData) s))"

section \<open>Observations\<close>

text \<open>
  What a run has issued to the store is the part of the log it appended. The content of
  the store, once the issued calls have completed in order, is the replay of the log.
\<close>

definition issued :: "tab_manager \<Rightarrow> tab_manager \<Rightarrow> store_op list" where
  "issued s s' = drop (length (store_log s)) (store_log s')"

fun apply_op :: "(key \<Rightarrow> jsobj option) \<Rightarrow> store_op \<Rightarrow> (key \<Rightarrow> jsobj option)" where
  "apply_op m (StoreSet k r) = m(k \<mapsto> r)"
| "apply_op m (StoreRemove k) = m(k := None)"

definition persisted :: "(key \<Rightarrow> jsobj option) \<Rightarrow> store_op list \<Rightarrow> (key \<Rightarrow> jsobj option)" where
  "persisted m ops = foldl apply_op m ops"

text \<open>
  The records written and the number of deletions issued under one key.
\<close>

fun writes_for :: "key \<Rightarrow> store_op list \<Rightarrow> jsobj list" where
  "writes_for k [] = []"
| "writes_for k (StoreSet k' r # ops) = (if k' = k then r # writes_for k ops else writes_for k ops)"
| "writes_for k (StoreRemove k' # ops) = writes_for k ops"

definition deletes_for :: "key \<Rightarrow> store_op list \<Rightarrow> nat" where
  "deletes_for k ops = length (filter (\<lambda>op. op = StoreRemove k) ops)"

text \<open>
  The values passed to \<open>console.error\<close> when the listeners \<open>fns\<close> are notified of \<open>ev\<close>.
\<close>

definition thrown :: "(listener \<Rightarrow> url_change \<Rightarrow> outcome) \<Rightarrow> url_change \<Rightarrow> listener list \<Rightarrow> jsval list" where
  "thrown run ev fns =
     List.map_filter (\<lambda>fn. case run fn ev of Returns \<Rightarrow> None | Throws err \<Rightarrow> Some err) fns"




text \<open>
  For a supported live tab, the record the reconciler puts in the cache and whether it
  issues a write for it, in terms of the persisted mapping at the start; the writes of
  the first loop over a list of tabs with pairwise different ids.
\<close>

definition live_record :: "(key \<Rightarrow> jsobj option) \<Rightarrow> key \<Rightarrow> string \<Rightarrow> jsobj" where
  "live_record db tid u = (case db tid of None \<Rightarrow> Map.empty | Some r \<Rightarrow> r)(''url'' \<mapsto> Str u)"

definition needs_write :: "(key \<Rightarrow> jsobj option) \<Rightarrow> key \<Rightarrow> string \<Rightarrow> bool" where
  "needs_write db tid u = (case db tid of None \<Rightarrow> True | Some r \<Rightarrow> own_prop r ''url'' \<noteq> Str u)"

definition live_writes ::
  "(string \<Rightarrow> bool) \<Rightarrow> (key \<Rightarrow> jsobj option) \<Rightarrow> (key \<times> string) list \<Rightarrow> store_op list" where
  "live_writes supported db tabs =
     concat (map (\<lambda>(tid, u). if supported u \<and> needs_write db tid u
                              then [StoreSet tid (live_record db tid u)] else []) tabs)"

text \<open>
  The specification's wording for the keys the reconciler may delete: the key parses as
  a non-negative integer tab id. This follows the words of the specification, not the
  code, which tests \<open>+key >= 0\<close>; the two are compared below.
\<close>

definition parses_as_tab_id :: "key \<Rightarrow> bool" where
  "parses_as_tab_id k =
     (case k of KNum n \<Rightarrow> 0 \<le> n | KStr s \<Rightarrow> s \<noteq> [] \<and> list_all is_digit s)"

section \<open>Example inputs\<close>

text \<open>
  A support predicate that accepts http and https URLs, the snapshot of the
  specification's reconciliation example, and a few module states.
\<close>

definition http_supported :: "string \<Rightarrow> bool" where
  "http_supported u = (take 4 u = ''http'')"

definition ex_dbData :: "(key \<times> jsobj) list" where
  "ex_dbData = [(KNum 5, [''url'' \<mapsto> Str ''http://old'']),
                (KNum 6, [''url'' \<mapsto> Str ''http://x'']),
                (KStr ''cfg'', Map.empty)]"

definition ex_tabs :: "(key \<times> string) list" where
  "ex_tabs = [(KNum 5, ''http://new'')]"

definition tracked1 :: tab_manager where
  "tracked1 = init\<lparr>cache := [KNum 1 \<mapsto> [''foo'' \<mapsto> Num 123]],
                   store_log := [StoreSet (KNum 1) [''foo'' \<mapsto> Num 123]]\<rparr>"





definition navigated6 :: tab_manager where
  "navigated6 = onUrlChange http_supported (\<lambda>fn ev. Returns) (KNum 6) 0 ''chrome://settings'' init"

definition ex_run :: "listener \<Rightarrow> url_change \<Rightarrow> outcome" where
  "ex_run fn ev = (if fn = 1 then Throws (Str ''boom'') else Returns)"

definition ex_nav :: tab_manager where
  "ex_nav = onOff 2 True (onOff 1 True
     (init\<lparr>cache := [KNum 1 \<mapsto> [''url'' \<mapsto> Str ''http://a'']]\<rparr>))"

section \<open>Properties of the path traversals\<close>

lemmas obj_names = inherited_def proto_names_def object_proto_names_def

lemma walk_falsy: "\<not> truthy_place res \<Longrightarrow> walk res keyPath = Inr res"
  by (cases keyPath) auto












section \<open>Properties of notification\<close>

lemma notify_eq:
  "notify run ev fns s =
     s\<lparr>calls := calls s @ map (\<lambda>fn. (fn, ev)) fns, console := console s @ thrown run ev fns\<rparr>"
proof (induction fns arbitrary: s)
  case Nil
  show ?case by (simp add: thrown_def)
next
  case (Cons fn fns)
  show ?case
    by (cases "run fn ev") (simp_all add: Cons.IH thrown_def List.map_filter_simps)
qed

lemma onOff_distinct: "distinct (listeners s) \<Longrightarrow> distinct (listeners (onOff fn state s))"
  by (simp add: onOff_def distinct_removeAll)

section \<open>Properties of the two reconciliation loops\<close>

text \<open>
  One iteration of the first loop, with its three branches merged.
\<close>

lemma live_step:
  "live_pass supported ((tid, u) # tabs) db s =
     (if supported u
      then live_pass supported tabs
             (if needs_write db tid u \<and> db tid \<noteq> None then db(tid \<mapsto> live_record db tid u) else db)
             (s\<lparr>cache := (cache s)(tid \<mapsto> live_record db tid u),
                store_log := store_log s @
                  (if needs_write db tid u then [StoreSet tid (live_record db tid u)] else [])\<rparr>)
      else live_pass supported tabs db s)"
proof (cases "db tid")
  case None
  then show ?thesis by (simp add: needs_write_def live_record_def Let_def)
next
  case (Some r)
  show ?thesis
  proof (cases "own_prop r ''url'' = Str u")
    case True
    then have "r ''url'' = Some (Str u)"
      by (auto simp: own_prop_def split: option.splits)
    then have "r(''url'' \<mapsto> Str u) = r" by (rule map_upd_triv)
    with Some True show ?thesis by (simp add: needs_write_def live_record_def)
  next
    case False
    with Some show ?thesis by (simp add: needs_write_def live_record_def Let_def)
  qed
qed

lemma live_pass_other:
  "tid \<notin> fst ` {x \<in> set tabs. supported (snd x)} \<Longrightarrow>
   cache (snd (live_pass supported tabs db s)) tid = cache s tid"
proof (induction tabs arbitrary: db s)
  case Nil
  show ?case by simp
next
  case (Cons x tabs)
  obtain t u where x: "x = (t, u)" by (cases x)
  from Cons.prems have "tid \<notin> fst ` {x \<in> set tabs. supported (snd x)}" by auto
  note IH = Cons.IH[OF this]
  from Cons.prems x have "supported u \<Longrightarrow> t \<noteq> tid" by force
  with IH show ?case unfolding x live_step by auto
qed

lemma live_pass_inserted:
  "tid \<in> fst ` {x \<in> set tabs. supported (snd x)} \<Longrightarrow>
   cache (snd (live_pass supported tabs db s)) tid \<noteq> None"
proof (induction tabs arbitrary: db s)
  case Nil
  then show ?case by simp
next
  case (Cons x tabs)
  obtain t v where x: "x = (t, v)" by (cases x)
  show ?case
  proof (cases "tid \<in> fst ` {x \<in> set tabs. supported (snd x)}")
    case True
    from Cons.IH[OF True] show ?thesis
      unfolding x live_step by simp
  next
    case False
    with Cons.prems x have e: "t = tid" "supported v" by auto
    from live_pass_other[OF False] e show ?thesis
      unfolding x live_step by simp
  qed
qed

lemma live_record_upd: "t \<noteq> tid \<Longrightarrow> live_record (db(t \<mapsto> r)) tid u = live_record db tid u"
  by (simp add: live_record_def)

lemma needs_write_upd: "t \<noteq> tid \<Longrightarrow> needs_write (db(t \<mapsto> r)) tid u = needs_write db tid u"
  by (simp add: needs_write_def)

lemma live_pass_cache:
  "distinct (map fst tabs) \<Longrightarrow> (tid, u) \<in> set tabs \<Longrightarrow> supported u \<Longrightarrow>
   cache (snd (live_pass supported tabs db s)) tid = Some (live_record db tid u)"
proof (induction tabs arbitrary: db s)
  case Nil
  then show ?case by simp
next
  case (Cons x tabs)
  obtain t v where x: "x = (t, v)" by (cases x)
  from Cons.prems(1) x have nt: "t \<notin> fst ` set tabs" and d: "distinct (map fst tabs)" by auto
  show ?case
  proof (cases "(tid, u) = (t, v)")
    case True
    from nt have "t \<notin> fst ` {x \<in> set tabs. supported (snd x)}" by auto
    from live_pass_other[OF this] True Cons.prems(3) show ?thesis
      unfolding x live_step by simp
  next
    case False
    with Cons.prems(2) x have mem: "(tid, u) \<in> set tabs" by auto
    with nt have ne: "t \<noteq> tid" by force
    from Cons.IH[OF d mem Cons.prems(3)] ne show ?thesis
      unfolding x live_step by (simp add: live_record_upd)
  qed
qed

lemma live_writes_upd:
  "t \<notin> fst ` set tabs \<Longrightarrow> live_writes supported (db(t \<mapsto> r)) tabs = live_writes supported db tabs"
proof -
  assume "t \<notin> fst ` set tabs"
  then have "\<forall>x \<in> set tabs. fst x \<noteq> t" by auto
  then have "map (\<lambda>(tid, u). if supported u \<and> needs_write (db(t \<mapsto> r)) tid u
                              then [StoreSet tid (live_record (db(t \<mapsto> r)) tid u)] else []) tabs
    = map (\<lambda>(tid, u). if supported u \<and> needs_write db tid u
                              then [StoreSet tid (live_record db tid u)] else []) tabs"
    by (intro map_cong) (auto simp: live_record_upd needs_write_upd)
  then show ?thesis by (simp only: live_writes_def)
qed

lemma live_pass_log:
  "distinct (map fst tabs) \<Longrightarrow>
   store_log (snd (live_pass supported tabs db s)) = store_log s @ live_writes supported db tabs"
proof (induction tabs arbitrary: db s)
  case Nil
  show ?case by (simp add: live_writes_def)
next
  case (Cons x tabs)
  obtain t v where x: "x = (t, v)" by (cases x)
  from Cons.prems x have nt: "t \<notin> fst ` set tabs" and d: "distinct (map fst tabs)" by auto
  have hd: "live_writes supported db ((t, v) # tabs) =
      (if supported v \<and> needs_write db t v then [StoreSet t (live_record db t v)] else [])
        @ live_writes supported db tabs"
    by (simp add: live_writes_def)
  show ?case
    unfolding x live_step hd
    by (simp add: Cons.IH[OF d] live_writes_upd[OF nt])
qed

lemma live_pass_sets:
  "\<exists>ext. store_log (snd (live_pass supported tabs db s)) = store_log s @ ext \<and>
         (\<forall>op \<in> set ext. \<exists>k r. op = StoreSet k r \<and> k \<in> fst ` {x \<in> set tabs. supported (snd x)})"
proof (induction tabs arbitrary: db s)
  case Nil
  show ?case by simp
next
  case (Cons x tabs)
  obtain t v where x: "x = (t, v)" by (cases x)
  show ?case
  proof (cases "supported v")
    case False
    have sub: "fst ` {y \<in> set tabs. supported (snd y)}
        \<subseteq> fst ` {y \<in> set (x # tabs). supported (snd y)}" by auto
    from Cons.IH[of db s] obtain ext where
      "store_log (snd (live_pass supported tabs db s)) = store_log s @ ext" and
      "\<forall>op \<in> set ext. \<exists>k r. op = StoreSet k r \<and> k \<in> fst ` {x \<in> set tabs. supported (snd x)}"
      by blast
    with sub False have
      "store_log (snd (live_pass supported (x # tabs) db s)) = store_log s @ ext \<and>
       (\<forall>op \<in> set ext. \<exists>k r. op = StoreSet k r \<and>
          k \<in> fst ` {y \<in> set (x # tabs). supported (snd y)})"
      unfolding x live_step by (simp add: subset_iff) blast
    then show ?thesis by blast
  next
    case True
    define db' where
      "db' = (if needs_write db t v \<and> db t \<noteq> None then db(t \<mapsto> live_record db t v) else db)"
    define w where "w = (if needs_write db t v then [StoreSet t (live_record db t v)] else [])"
    define s1 where
      "s1 = s\<lparr>cache := (cache s)(t \<mapsto> live_record db t v), store_log := store_log s @ w\<rparr>"
    from Cons.IH[of db' s1] obtain ext where
      e: "store_log (snd (live_pass supported tabs db' s1)) = store_log s1 @ ext" and
      k: "\<forall>op \<in> set ext. \<exists>k r. op = StoreSet k r \<and> k \<in> fst ` {x \<in> set tabs. supported (snd x)}"
      by blast
    have step: "live_pass supported (x # tabs) db s = live_pass supported tabs db' s1"
      using True unfolding x live_step db'_def s1_def w_def by simp
    have "store_log (snd (live_pass supported (x # tabs) db s)) = store_log s @ (w @ ext)"
      using e by (simp add: step s1_def)
    moreover have "\<forall>op \<in> set (w @ ext).
        \<exists>k r. op = StoreSet k r \<and> k \<in> fst ` {y \<in> set (x # tabs). supported (snd y)}"
      using k True x by (force simp: w_def)
    ultimately show ?thesis by blast
  qed
qed

lemma gc_pass_eq:
  "gc_pass ks s =
     s\<lparr>store_log := store_log s @
          map StoreRemove (filter (\<lambda>k. ge0 (to_number k) \<and> cache s k = None) ks)\<rparr>"
  by (induction ks arbitrary: s) simp_all

lemma writes_for_append: "writes_for k (xs @ ys) = writes_for k xs @ writes_for k ys"
  by (induction k xs rule: writes_for.induct) simp_all

lemma writes_for_removes: "writes_for k (map StoreRemove ks) = []"
  by (induction ks) simp_all

lemma writes_for_live:
  "distinct (map fst tabs) \<Longrightarrow> (tid, u) \<in> set tabs \<Longrightarrow> supported u \<Longrightarrow>
   writes_for tid (live_writes supported db tabs) =
     (if needs_write db tid u then [live_record db tid u] else [])"
proof (induction tabs)
  case Nil
  then show ?case by simp
next
  case (Cons x tabs)
  obtain t v where x: "x = (t, v)" by (cases x)
  from Cons.prems(1) x have nt: "t \<notin> fst ` set tabs" and d: "distinct (map fst tabs)" by auto
  have hd: "live_writes supported db ((t, v) # tabs) =
      (if supported v \<and> needs_write db t v then [StoreSet t (live_record db t v)] else [])
        @ live_writes supported db tabs"
    by (simp add: live_writes_def)
  have none: "writes_for k (live_writes supported db ts) = []" if "k \<notin> fst ` set ts" for k ts
    using that
    by (induction ts) (auto simp: live_writes_def writes_for_append)
  show ?case
  proof (cases "(tid, u) = (t, v)")
    case True
    with nt Cons.prems(3) show ?thesis
      unfolding x hd writes_for_append
      by (simp add: none)
  next
    case False
    with Cons.prems(2) x have mem: "(tid, u) \<in> set tabs" by auto
    with nt have ne: "t \<noteq> tid" by force
    from Cons.IH[OF d mem Cons.prems(3)] ne show ?thesis
      unfolding x hd writes_for_append
      by simp
  qed
qed

lemma deletes_for_removes:
  "distinct ks \<Longrightarrow>
   deletes_for k (map StoreRemove (filter P ks)) = (if k \<in> set ks \<and> P k then 1 else 0)"
  by (induction ks) (auto simp: deletes_for_def)

lemma deletes_for_sets:
  "\<forall>op \<in> set ext. \<exists>k r. op = StoreSet k r \<Longrightarrow> deletes_for k ext = 0"
  by (induction ext) (auto simp: deletes_for_def)

lemma reconcile_log:
  "\<exists>ext. store_log (reconcile supported dbData tabs s) =
           store_log s @ ext @
             map StoreRemove
               (filter (\<lambda>k. ge0 (to_number k) \<and> cache (reconcile supported dbData tabs s) k = None)
                  (map fst dbData)) \<and>
         (\<forall>op \<in> set ext. \<exists>k r. op = StoreSet k r \<and> k \<in> fst ` {x \<in> set tabs. supported (snd x)})"
proof -
  obtain ext where
    "store_log (snd (live_pass supported tabs (map_of dbData) s)) = store_log s @ ext" and
    "\<forall>op \<in> set ext. \<exists>k r. op = StoreSet k r \<and> k \<in> fst ` {x \<in> set tabs. supported (snd x)}"
    using live_pass_sets[of supported tabs "map_of dbData" s] by blast
  then show ?thesis
    by (simp add: reconcile_def gc_pass_eq)
qed

lemma reconcile_cache:
  "cache (reconcile supported dbData tabs s) =
   cache (snd (live_pass supported tabs (map_of dbData) s))"
  by (simp add: reconcile_def gc_pass_eq)

text \<open>
  Every key that is a non-negative integer, as a number or written in decimal digits,
  passes the test \<open>+key >= 0\<close>.
\<close>

lemma to_rounded_ge0: "0 \<le> q \<Longrightarrow> ge0 (to_rounded q)"
  by (simp add: to_rounded_def)

lemma digits_ge0:
  assumes "s \<noteq> []" and "list_all is_digit s"
  shows "ge0 (string_to_number s)"
proof -
  have nsp: "\<not> is_space c" if "is_digit c" for c
    using that by (auto simp: is_space_def is_digit_def)
  from assms obtain c cs where s: "s = c # cs" by (cases s) auto
  with assms(2) have dc: "is_digit c" by simp
  from assms have dl: "is_digit (last s)" by (simp add: list_all_iff)
  have "dropWhile is_space s = s" using s dc nsp by simp
  moreover have "dropWhile is_space (rev s) = rev s"
    using assms(1) dl nsp by (cases "rev s") (auto simp: last_rev[symmetric] hd_rev)
  ultimately have t: "trim s = s" by (simp add: trim_def)
  have nd: "\<not> is_digit x" if "x \<in> {CHR ''x'', CHR ''X'', CHR ''o'', CHR ''O'', CHR ''b'', CHR ''B'', CHR ''+'', CHR ''-'', CHR ''I''}" for x
    using that by (auto simp: is_digit_def)
  have p: "take 2 s \<noteq> [c0, x]" if "\<not> is_digit x" for c0 x
  proof
    assume "take 2 s = [c0, x]"
    then have "x \<in> set (take 2 s)" by simp
    then have "x \<in> set s" by (rule in_set_takeD)
    with assms(2) that show False by (simp add: list_all_iff)
  qed
  have h: "hd s \<noteq> CHR ''+''" "hd s \<noteq> CHR ''-''" "s \<noteq> ''Infinity''"
    using s dc nd by auto
  have tw: "takeWhile is_digit s = s" "dropWhile is_digit s = []"
    using assms(2) by (simp_all add: list_all_iff)
  have u: "unsigned_decimal s = Some (of_nat (nat_of_digits s))"
    using assms(1) by (simp add: unsigned_decimal_def tw exponent_part_def scale10_def)
  show ?thesis
    using t h u p[of "CHR ''x''"] p[of "CHR ''X''"] p[of "CHR ''o''"] p[of "CHR ''O''"]
      p[of "CHR ''b''"] p[of "CHR ''B''"] nd
    by (simp add: string_to_number_def to_rounded_ge0)
qed

lemma parses_ge0: "parses_as_tab_id k \<Longrightarrow> ge0 (to_number k)"
  by (cases k) (auto simp: parses_as_tab_id_def digits_ge0)

section \<open>Claims\<close>

subsection \<open>Startup reconciler\<close>

text \<open>
  Claim C1. Given the persisted mapping and the live tab list (tab ids pairwise
  different), every live tab with a supported URL ends up in the cache under its id, with
  the persisted record of that id if there is one and an empty record otherwise, and with
  \<open>url\<close> equal to the live URL. If the record was created or its persisted \<open>url\<close> differed,
  exactly that record is written to the store under the id; if the persisted record
  already had the live URL it is reused unchanged and no write is issued for it. Ids that
  are not those of a supported live tab keep the cache entry they had.
\<close>

theorem reconcile_live_tabs:
  assumes "distinct (map fst tabs)"
  shows "let s' = reconcile supported dbData tabs s; db = map_of dbData in
           (\<forall>(tid, u) \<in> set tabs. supported u \<longrightarrow>
              (let created_or_changed =
                     (case db tid of None \<Rightarrow> True | Some r \<Rightarrow> own_prop r ''url'' \<noteq> Str u);
                   data = (case db tid of None \<Rightarrow> Map.empty | Some r \<Rightarrow> r)(''url'' \<mapsto> Str u)
               in cache s' tid = Some data \<and>
                  (\<not> created_or_changed \<longrightarrow> db tid = Some data) \<and>
                  writes_for tid (issued s s') = (if created_or_changed then [data] else []))) \<and>
           (\<forall>tid. tid \<notin> fst ` {x \<in> set tabs. supported (snd x)} \<longrightarrow> cache s' tid = cache s tid)"
proof -
  define s' where "s' = reconcile supported dbData tabs s"
  define db where "db = map_of dbData"
  have log: "issued s s' = live_writes supported db tabs @
      map StoreRemove (filter (\<lambda>k. ge0 (to_number k) \<and> cache s' k = None) (map fst dbData))"
    by (simp add: issued_def s'_def db_def reconcile_def gc_pass_eq live_pass_log[OF assms])
  have live: "cache s' tid = Some (live_record db tid u) \<and>
      (\<not> needs_write db tid u \<longrightarrow> db tid = Some (live_record db tid u)) \<and>
      writes_for tid (issued s s') = (if needs_write db tid u then [live_record db tid u] else [])"
    if "(tid, u) \<in> set tabs" "supported u" for tid u
  proof -
    have "db tid = Some (live_record db tid u)" if "\<not> needs_write db tid u"
    proof -
      from that obtain r where r: "db tid = Some r" "own_prop r ''url'' = Str u"
        by (auto simp: needs_write_def split: option.splits)
      then have "r ''url'' = Some (Str u)"
        by (auto simp: own_prop_def split: option.splits)
      then have "r(''url'' \<mapsto> Str u) = r" by (rule map_upd_triv)
      with r show ?thesis by (simp add: live_record_def)
    qed
    moreover have "cache (snd (live_pass supported tabs db s)) tid = Some (live_record db tid u)"
      using assms that by (rule live_pass_cache)
    moreover have "writes_for tid (live_writes supported db tabs) =
        (if needs_write db tid u then [live_record db tid u] else [])"
      using assms that by (rule writes_for_live)
    ultimately show ?thesis
      by (simp add: s'_def db_def reconcile_cache log[unfolded s'_def db_def]
          writes_for_append writes_for_removes)
  qed
  have other: "cache s' tid = cache s tid"
    if "tid \<notin> fst ` {x \<in> set tabs. supported (snd x)}" for tid
    using live_pass_other[OF that] by (simp add: s'_def reconcile_cache)
  from live have main: "\<forall>(tid, u) \<in> set tabs. supported u \<longrightarrow>
      (cache s' tid = Some (live_record db tid u) \<and>
       (\<not> needs_write db tid u \<longrightarrow> db tid = Some (live_record db tid u)) \<and>
       writes_for tid (issued s s') = (if needs_write db tid u then [live_record db tid u] else []))"
    by blast
  from other have rest:
    "\<forall>tid. tid \<notin> fst ` {x \<in> set tabs. supported (snd x)} \<longrightarrow> cache s' tid = cache s tid"
    by blast
  from main rest show ?thesis
    unfolding Let_def s'_def[symmetric] db_def[symmetric] live_record_def needs_write_def
    by (rule conjI)
qed

text \<open>
  The claim on the specification's example: tab 5 is live at \<open>http://new\<close> and persisted
  with \<open>http://old\<close>; tab 6 is persisted only.
\<close>

theorem reconcile_live_tabs_witness:
  "distinct (map fst ex_tabs) \<and>
   cache (reconcile http_supported ex_dbData ex_tabs init) (KNum 5)
     = Some [''url'' \<mapsto> Str ''http://new''] \<and>
   writes_for (KNum 5) (issued init (reconcile http_supported ex_dbData ex_tabs init))
     = [[''url'' \<mapsto> Str ''http://new'']] \<and>
   cache (reconcile http_supported ex_dbData ex_tabs init) (KNum 6) = None"
proof -
  have d: "distinct (map fst ex_tabs)" by (simp add: ex_tabs_def)
  have n: "cache init (KNum 6) = None" by (simp add: init_def)
  have u: "KNum 6 \<notin> fst ` {x \<in> set ex_tabs. http_supported (snd x)}"
    by (auto simp: ex_tabs_def)
  note t = reconcile_live_tabs [OF d, of http_supported ex_dbData init]
  from t have "\<forall>tid. tid \<notin> fst ` {x \<in> set ex_tabs. http_supported (snd x)} \<longrightarrow>
      cache (reconcile http_supported ex_dbData ex_tabs init) tid = cache init tid"
    by (simp add: Let_def)
  with u n have six: "cache (reconcile http_supported ex_dbData ex_tabs init) (KNum 6) = None"
    by metis
  from t have five:
    "cache (reconcile http_supported ex_dbData ex_tabs init) (KNum 5)
       = Some [''url'' \<mapsto> Str ''http://new''] \<and>
     writes_for (KNum 5) (issued init (reconcile http_supported ex_dbData ex_tabs init))
       = [[''url'' \<mapsto> Str ''http://new'']]"
    by (simp add: Let_def ex_tabs_def ex_dbData_def http_supported_def own_prop_def)
  from d five six show ?thesis by simp
qed

text \<open>
  Claim C2, as stated, fails in two ways. The string key \<open>"Infinity"\<close> does not parse as
  a non-negative integer, yet \<open>+"Infinity" >= 0\<close> holds and the key is deleted. And tab 6,
  whose navigation to an unsupported URL was cached before reconciliation ran, is not inserted
  by the first loop, yet no delete is issued for its persisted key, because the second
  loop looks the key up in the cache.
\<close>

theorem reconcile_gc_counterexample:
  "\<not> parses_as_tab_id (KStr ''Infinity'') \<and>
   deletes_for (KStr ''Infinity'')
     (issued init (reconcile http_supported [(KStr ''Infinity'', Map.empty)] [] init)) = 1 \<and>
   parses_as_tab_id (KNum 6) \<and>
   KNum 6 \<notin> fst ` {x \<in> set [(KNum 6, ''chrome://settings'')]. http_supported (snd x)} \<and>
   deletes_for (KNum 6)
     (issued navigated6
        (reconcile http_supported [(KNum 6, [''url'' \<mapsto> Str ''http://x''])]
           [(KNum 6, ''chrome://settings'')] navigated6)) = 0"
proof -
  have a: "ge0 (to_number (KStr ''Infinity''))"
    by (simp add: string_to_number_def trim_def is_space_def unsigned_decimal_def is_digit_def
        exponent_part_def scale10_def nat_of_digits_def digit_val_def to_rounded_def)
  have b: "\<not> parses_as_tab_id (KStr ''Infinity'')" "parses_as_tab_id (KNum 6)"
    by (simp_all add: parses_as_tab_id_def is_digit_def)
  have c: "cache navigated6 (KNum 6) \<noteq> None"
    by (simp add: navigated6_def onUrlChange_def Let_def http_supported_def init_def)
  from a b c show ?thesis
    by (auto simp: reconcile_def issued_def deletes_for_def http_supported_def init_def)
qed

text \<open>
  Claim C2, amended. For every key: exactly one delete is issued if the key is in the
  persisted mapping, passes \<open>+key >= 0\<close> and is absent from the cache after the first loop,
  and none otherwise; a key is absent from the cache exactly when it was absent before
  reconciliation and is not the id of a supported live tab. Writes are issued only under
  ids of supported live tabs. Every key that parses as a non-negative integer passes
  \<open>+key >= 0\<close>, so keys whose coercion is \<open>NaN\<close> or negative are never deleted.
\<close>

theorem reconcile_gc:
  assumes "distinct (map fst dbData)"
  shows "let s' = reconcile supported dbData tabs s in
           (\<forall>k. deletes_for k (issued s s') =
                  (if k \<in> fst ` set dbData \<and> ge0 (to_number k) \<and> cache s' k = None
                   then 1 else 0)) \<and>
           (\<forall>k. cache s' k = None \<longleftrightarrow>
                  cache s k = None \<and> k \<notin> fst ` {x \<in> set tabs. supported (snd x)}) \<and>
           (\<forall>k r. StoreSet k r \<in> set (issued s s') \<longrightarrow>
                  k \<in> fst ` {x \<in> set tabs. supported (snd x)}) \<and>
           (\<forall>k. parses_as_tab_id k \<longrightarrow> ge0 (to_number k))"
proof -
  define s' where "s' = reconcile supported dbData tabs s"
  define gone where
    "gone = filter (\<lambda>k. ge0 (to_number k) \<and> cache s' k = None) (map fst dbData)"
  obtain ext where
    log: "store_log s' = store_log s @ ext @ map StoreRemove gone" and
    ext: "\<forall>op \<in> set ext. \<exists>k r. op = StoreSet k r \<and> k \<in> fst ` {x \<in> set tabs. supported (snd x)}"
    using reconcile_log[of supported dbData tabs s] unfolding s'_def gone_def by blast
  have iss: "issued s s' = ext @ map StoreRemove gone"
    by (simp add: issued_def log)
  from ext have "\<forall>op \<in> set ext. \<exists>k r. op = StoreSet k r" by blast
  then have d0: "deletes_for k ext = 0" for k by (rule deletes_for_sets)
  have dapp: "deletes_for k (xs @ ys) = deletes_for k xs + deletes_for k ys" for k xs ys
    by (simp add: deletes_for_def)
  have 1: "deletes_for k (issued s s') =
      (if k \<in> fst ` set dbData \<and> ge0 (to_number k) \<and> cache s' k = None then 1 else 0)" for k
    using deletes_for_removes[OF assms, of k "\<lambda>k. ge0 (to_number k) \<and> cache s' k = None"]
    by (simp add: iss dapp d0 gone_def)
  have 2: "cache s' k = None \<longleftrightarrow>
      cache s k = None \<and> k \<notin> fst ` {x \<in> set tabs. supported (snd x)}" for k
    using live_pass_inserted[of k tabs supported "map_of dbData" s]
      live_pass_other[of k tabs supported "map_of dbData" s]
    unfolding s'_def reconcile_cache
    by (cases "k \<in> fst ` {x \<in> set tabs. supported (snd x)}") auto
  have 3: "k \<in> fst ` {x \<in> set tabs. supported (snd x)}"
    if "StoreSet k r \<in> set (issued s s')" for k r
    using that ext by (auto simp: iss)
  from 1 2 3 parses_ge0 show ?thesis
    unfolding Let_def s'_def[symmetric] by blast
qed

text \<open>
  The amended claim on the specification's example: a delete for key 6, none for key 5
  and none for \<open>cfg\<close>, which is not written either.
\<close>

theorem reconcile_gc_witness:
  "distinct (map fst ex_dbData) \<and>
   deletes_for (KNum 6) (issued init (reconcile http_supported ex_dbData ex_tabs init)) = 1 \<and>
   deletes_for (KNum 5) (issued init (reconcile http_supported ex_dbData ex_tabs init)) = 0 \<and>
   deletes_for (KStr ''cfg'') (issued init (reconcile http_supported ex_dbData ex_tabs init)) = 0 \<and>
   (\<forall>r. StoreSet (KStr ''cfg'') r
          \<notin> set (issued init (reconcile http_supported ex_dbData ex_tabs init)))"
proof -
  have d: "distinct (map fst ex_dbData)" by (simp add: ex_dbData_def)
  have c: "\<not> ge0 (to_number (KStr ''cfg''))"
    by (simp add: string_to_number_def trim_def is_space_def unsigned_decimal_def is_digit_def)
  have n: "cache init (KNum 6) = None" "cache init (KNum 5) = None" by (simp_all add: init_def)
  from d c n reconcile_gc [OF d, of http_supported ex_tabs init] show ?thesis
    by (auto simp: Let_def ex_tabs_def ex_dbData_def http_supported_def)
qed

subsection \<open>Path-based access\<close>

text \<open>
  Claim C3. For a tab id \<open>t\<close> that is not tracked, \<open>set(t, 'a', 'b', 1)\<close> returns, after which
  \<open>get(t, 'a', 'b')\<close> is \<open>1\<close> and the record written to the store under \<open>t\<close> is \<open>{a: {b: 1}}\<close>;
  a following \<open>set(t, 'a', 'b', undefined)\<close> returns and leaves \<open>{a: {}}\<close> in the store.
\<close>

theorem set_then_get_then_delete:
  assumes "cache s t = None"
  shows "\<exists>s1 s2.
           set_tab t [''a'', ''b''] (Num 1) s = Inr s1 \<and>
           get s1 t [''a'', ''b''] = Inr (Num 1) \<and>
           issued s s1 = [StoreSet t [''a'' \<mapsto> Obj [''b'' \<mapsto> Num 1]]] \<and>
           persisted db (store_log s1) t = Some [''a'' \<mapsto> Obj [''b'' \<mapsto> Num 1]] \<and>
           set_tab t [''a'', ''b''] Undefined s1 = Inr s2 \<and>
           issued s1 s2 = [StoreSet t [''a'' \<mapsto> Obj Map.empty]] \<and>
           persisted db (store_log s2) t = Some [''a'' \<mapsto> Obj Map.empty]"
proof -
  define r1 :: jsobj where "r1 = [''a'' \<mapsto> Obj [''b'' \<mapsto> Num 1]]"
  define r2 :: jsobj where "r2 = [''a'' \<mapsto> Obj Map.empty]"
  define s1 where
    "s1 = s\<lparr>cache := (cache s)(t \<mapsto> r1), store_log := store_log s @ [StoreSet t r1]\<rparr>"
  define s2 where
    "s2 = s1\<lparr>cache := (cache s1)(t \<mapsto> r2), store_log := store_log s1 @ [StoreSet t r2]\<rparr>"
  have 1: "set_tab t [''a'', ''b''] (Num 1) s = Inr s1"
    using assms by (simp add: set_tab_def Let_def obj_names the_obj_def s1_def r1_def)
  have 2: "get s1 t [''a'', ''b''] = Inr (Num 1)"
    by (simp add: get_def cache_get_def s1_def r1_def)
  have 3: "issued s s1 = [StoreSet t r1]" "persisted db (store_log s1) t = Some r1"
    by (simp_all add: issued_def persisted_def s1_def)
  have 4: "set_tab t [''a'', ''b''] Undefined s1 = Inr s2"
    by (simp add: set_tab_def Let_def the_obj_def s1_def s2_def r1_def r2_def)
  have 5: "issued s1 s2 = [StoreSet t r2]" "persisted db (store_log s2) t = Some r2"
    by (simp_all add: issued_def persisted_def s2_def)
  from 1 2 3 4 5 show ?thesis
    unfolding r1_def r2_def by blast
qed

theorem set_then_get_then_delete_witness:
  "cache init (KNum 3) = None \<and>
   (\<exists>s1 s2.
      set_tab (KNum 3) [''a'', ''b''] (Num 1) init = Inr s1 \<and>
      get s1 (KNum 3) [''a'', ''b''] = Inr (Num 1) \<and>
      issued init s1 = [StoreSet (KNum 3) [''a'' \<mapsto> Obj [''b'' \<mapsto> Num 1]]] \<and>
      persisted Map.empty (store_log s1) (KNum 3) = Some [''a'' \<mapsto> Obj [''b'' \<mapsto> Num 1]] \<and>
      set_tab (KNum 3) [''a'', ''b''] Undefined s1 = Inr s2 \<and>
      issued s1 s2 = [StoreSet (KNum 3) [''a'' \<mapsto> Obj Map.empty]] \<and>
      persisted Map.empty (store_log s2) (KNum 3) = Some [''a'' \<mapsto> Obj Map.empty])"
proof -
  have h: "cache init (KNum 3) = None" by (simp add: init_def)
  from h set_then_get_then_delete [OF h, of Map.empty] show ?thesis by simp
qed










text \<open>
  Claim C8. \<open>remove(t)\<close> drops the cache record of \<open>t\<close>, after which \<open>get\<close> on \<open>t\<close> is
  \<open>undefined\<close> for any path, and issues exactly one call to the store, the deletion of
  \<open>t\<close>.
\<close>

theorem remove_evicts:
  "cache (remove t s) t = None \<and>
   get (remove t s) t keyPath = Inr Undefined \<and>
   store_log (remove t s) = store_log s @ [StoreRemove t] \<and>
   issued s (remove t s) = [StoreRemove t]"
  by (simp add: remove_def get_def cache_get_def walk_falsy issued_def)

theorem remove_evicts_witness:
  "cache (remove (KNum 1) tracked1) (KNum 1) = None \<and>
   get (remove (KNum 1) tracked1) (KNum 1) [''a''] = Inr Undefined \<and>
   issued tracked1 (remove (KNum 1) tracked1) = [StoreRemove (KNum 1)]"
  using remove_evicts [of "KNum 1" tracked1 "[''a'']"] by simp

subsection \<open>Navigation reactor\<close>

text \<open>
  Claim C4. On a top-frame navigation of tab \<open>t\<close> to a supported URL \<open>u\<close>, the listeners
  are called in registration order, each exactly once, with \<open>{tabId: t, url: u, oldUrl}\<close>
  where \<open>oldUrl\<close> is the cached \<open>url\<close> of the tab before the event (\<open>undefined\<close> for an
  untracked tab). What a listener throws goes to \<open>console.error\<close> and the listeners after
  it are still called; the cache holds the record with the new \<open>url\<close> and the write of
  that record has been issued, whatever the listeners do.
\<close>

theorem supported_navigation:
  assumes "supported u" and "distinct (listeners s)"
  shows "let s' = onUrlChange supported run t 0 u s;
             ev = \<lparr>tabId = t, url = u,
                   oldUrl = (case cache s t of None \<Rightarrow> Undefined | Some r \<Rightarrow> own_prop r ''url'')\<rparr>;
             obj = (case cache s t of None \<Rightarrow> Map.empty | Some r \<Rightarrow> r)(''url'' \<mapsto> Str u)
         in calls s' = calls s @ map (\<lambda>fn. (fn, ev)) (listeners s) \<and>
            (\<forall>fn \<in> set (listeners s).
               length (filter (\<lambda>c. fst c = fn) (drop (length (calls s)) (calls s'))) = 1) \<and>
            console s' = console s @ thrown run ev (listeners s) \<and>
            cache s' = (cache s)(t \<mapsto> obj) \<and>
            store_log s' = store_log s @ [StoreSet t obj] \<and>
            listeners s' = listeners s"
proof -
  define ev where "ev = \<lparr>tabId = t, url = u,
    oldUrl = (case cache s t of None \<Rightarrow> Undefined | Some r \<Rightarrow> own_prop r ''url'')\<rparr>"
  define s' where "s' = onUrlChange supported run t 0 u s"
  have once: "length (filter (\<lambda>c. fst c = fn) (map (\<lambda>fn. (fn, ev)) fns)) = 1"
    if "fn \<in> set fns" "distinct fns" for fn fns
    using that by (induction fns) (auto simp: filter_empty_conv)
  have c: "calls s' = calls s @ map (\<lambda>fn. (fn, ev)) (listeners s)"
    using assms(1) by (simp add: s'_def ev_def onUrlChange_def Let_def notify_eq)
  have "drop (length (calls s)) (calls s') = map (\<lambda>fn. (fn, ev)) (listeners s)"
    by (simp add: c)
  with once assms(2)
  have n: "\<forall>fn \<in> set (listeners s).
      length (filter (\<lambda>c. fst c = fn) (drop (length (calls s)) (calls s'))) = 1"
    by auto
  have rest: "console s' = console s @ thrown run ev (listeners s) \<and>
      cache s' = (cache s)(t \<mapsto>
        (case cache s t of None \<Rightarrow> Map.empty | Some r \<Rightarrow> r)(''url'' \<mapsto> Str u)) \<and>
      store_log s' = store_log s @
        [StoreSet t ((case cache s t of None \<Rightarrow> Map.empty | Some r \<Rightarrow> r)(''url'' \<mapsto> Str u))] \<and>
      listeners s' = listeners s"
    using assms(1) by (simp add: s'_def ev_def onUrlChange_def Let_def notify_eq)
  from c n rest show ?thesis
    unfolding Let_def s'_def ev_def by blast
qed

text \<open>
  Tab 1 goes from \<open>http://a\<close> to \<open>http://b\<close>; the first of two listeners throws.
\<close>

theorem supported_navigation_witness:
  "http_supported ''http://b'' \<and> distinct (listeners ex_nav) \<and>
   calls (onUrlChange http_supported ex_run (KNum 1) 0 ''http://b'' ex_nav) =
     [(1, \<lparr>tabId = KNum 1, url = ''http://b'', oldUrl = Str ''http://a''\<rparr>),
      (2, \<lparr>tabId = KNum 1, url = ''http://b'', oldUrl = Str ''http://a''\<rparr>)] \<and>
   console (onUrlChange http_supported ex_run (KNum 1) 0 ''http://b'' ex_nav) = [Str ''boom''] \<and>
   cache (onUrlChange http_supported ex_run (KNum 1) 0 ''http://b'' ex_nav) (KNum 1) =
     Some [''url'' \<mapsto> Str ''http://b'']"
proof -
  have h: "http_supported ''http://b''" by (simp add: http_supported_def)
  have d: "distinct (listeners ex_nav)" by (simp add: ex_nav_def onOff_def init_def)
  have l: "listeners ex_nav = [1, 2]" "calls ex_nav = []" "console ex_nav = []"
    "cache ex_nav (KNum 1) = Some [''url'' \<mapsto> Str ''http://a'']"
    by (simp_all add: ex_nav_def onOff_def init_def)
  from h d l supported_navigation [where supported = http_supported and u = "''http://b''"
      and s = ex_nav and run = ex_run and t = "KNum 1"] show ?thesis
    by (simp add: Let_def own_prop_def thrown_def ex_run_def List.map_filter_simps)
qed

text \<open>
  Claim C6. On a top-frame navigation of tab \<open>t\<close> to an unsupported URL, the cache holds
  the record of \<open>t\<close> (an empty one if there was none) with \<open>url\<close> set to the new URL, that
  record is written to the store, and no listener is called.
\<close>

theorem unsupported_navigation:
  assumes "\<not> supported u"
  shows "let s' = onUrlChange supported run t 0 u s;
             obj = (case cache s t of None \<Rightarrow> Map.empty | Some r \<Rightarrow> r)(''url'' \<mapsto> Str u)
         in cache s' t = Some obj \<and>
            store_log s' = store_log s @ [StoreSet t obj] \<and>
            calls s' = calls s \<and> console s' = console s"
  using assms by (simp add: onUrlChange_def Let_def)

theorem unsupported_navigation_witness:
  "\<not> http_supported ''chrome://settings'' \<and>
   cache (onUrlChange http_supported ex_run (KNum 6) 0 ''chrome://settings'' ex_nav) (KNum 6) =
     Some [''url'' \<mapsto> Str ''chrome://settings''] \<and>
   store_log (onUrlChange http_supported ex_run (KNum 6) 0 ''chrome://settings'' ex_nav) =
     [StoreSet (KNum 6) [''url'' \<mapsto> Str ''chrome://settings'']] \<and>
   calls (onUrlChange http_supported ex_run (KNum 6) 0 ''chrome://settings'' ex_nav) = []"
proof -
  have h: "\<not> http_supported ''chrome://settings''" by (simp add: http_supported_def)
  have l: "cache ex_nav (KNum 6) = None" "store_log ex_nav = []" "calls ex_nav = []"
    by (simp_all add: ex_nav_def onOff_def init_def)
  from h l unsupported_navigation [where supported = http_supported
      and u = "''chrome://settings''" and s = ex_nav and run = ex_run and t = "KNum 6"] show ?thesis
    by (simp add: Let_def)
qed

text \<open>
  Claim C9. A navigation event whose frame id is not \<open>0\<close> leaves the whole state as it
  is: cache, store log, listener calls.
\<close>

theorem subframe_ignored:
  "frameId \<noteq> 0 \<Longrightarrow> onUrlChange supported run t frameId u s = s"
  by (simp add: onUrlChange_def)

theorem subframe_ignored_witness:
  "(3::int) \<noteq> 0 \<and>
   onUrlChange (\<lambda>u. True) (\<lambda>fn ev. Returns) (KNum 7) 3 ''http://a'' (onOff 1 True init)
     = onOff 1 True init"
  using subframe_ignored [of 3 "\<lambda>u. True" "\<lambda>fn ev. Returns" "KNum 7" "''http://a''" "onOff 1 True init"]
  by simp

end
